theory Spec2Isabelle
  imports Complex_Main
begin

section \<open>Strings and patterns (constants.ts)\<close>

text \<open>
  A JavaScript string is modelled as a \<open>string\<close> (a list of characters); \<open>s.length\<close> is
  \<open>length s\<close>, \<open>s.slice(n)\<close> is \<open>drop n s\<close>, \<open>s.slice(0, n)\<close> is \<open>take n s\<close> and
  \<open>a + b\<close> is \<open>a @ b\<close>. The regular-expression class \<open>\d\<close> of JavaScript is exactly
  the ten ASCII digits; the patterns of this module tell only these digits and \<open>+\<close> from
  all other characters, and \<open>$\<close> (without the multiline flag) matches at the end of the
  string only.
\<close>

definition isDigit :: "char \<Rightarrow> bool" where
  "isDigit c = (c \<in> set ''0123456789'')"

text \<open>\<open>PATTERNS.CLEANUP = /[^\d+]/g\<close>: the class of characters that the pattern matches.\<close>

definition CLEANUP_matches :: "char \<Rightarrow> bool" where
  "CLEANUP_matches c = (\<not> (isDigit c \<or> c = CHR ''+''))"

text \<open>
  \<open>phone.replace(PATTERNS.CLEANUP, '')\<close>: a global replace scans the string from the left
  and replaces every match (here a single character) by the empty string.
\<close>

primrec CLEANUP :: "string \<Rightarrow> string" where
  "CLEANUP [] = []"
| "CLEANUP (c # cs) = (if CLEANUP_matches c then CLEANUP cs else c # CLEANUP cs)"

definition startsWith :: "string \<Rightarrow> string \<Rightarrow> bool" where
  "startsWith s p = (take (length p) s = p)"

text \<open>\<open>E164_VALIDATION = /^\+234\d{10}$/\<close>, \<open>LOCAL_VALIDATION = /^0\d{10}$/\<close> and
  \<open>INTERNATIONAL_VALIDATION = /^\+234\d{10}$/\<close>, as the predicate \<open>pattern.test\<close> computes.\<close>

definition E164_VALIDATION :: "string \<Rightarrow> bool" where
  "E164_VALIDATION s =
     (startsWith s ''+234'' \<and> length (drop 4 s) = 10 \<and> list_all isDigit (drop 4 s))"

definition LOCAL_VALIDATION :: "string \<Rightarrow> bool" where
  "LOCAL_VALIDATION s =
     (startsWith s ''0'' \<and> length (drop 1 s) = 10 \<and> list_all isDigit (drop 1 s))"

definition INTERNATIONAL_VALIDATION :: "string \<Rightarrow> bool" where
  "INTERNATIONAL_VALIDATION s =
     (startsWith s ''+234'' \<and> length (drop 4 s) = 10 \<and> list_all isDigit (drop 4 s))"

section \<open>Types (types.ts)\<close>

datatype TelcoProvider = MTN | GLO | AIRTEL | NINE_MOBILE

datatype PhoneFormat = Local | International | E164

text \<open>
  The failures of \<open>normalizePhone\<close>. The source throws a \<open>TypeError\<close> with the message
  "Phone number must be a non-empty string" and \<open>Error\<close>s whose messages are
  "Invalid phone number length: ", "Invalid country code: ", "Invalid local number: ",
  "Invalid phone number format: " and "Invalid Nigerian phone number: ", each followed by
  the input; the constructors carry that input.
\<close>

datatype error =
    EmptyOrNonStringInput
  | InvalidLength string
  | InvalidCountryCode string
  | InvalidLocalNumber string
  | InvalidFormat string
  | InvalidNigerianNumber string

fun error_message :: "error \<Rightarrow> string" where
  "error_message EmptyOrNonStringInput = ''Phone number must be a non-empty string''"
| "error_message (InvalidLength phone) = ''Invalid phone number length: '' @ phone"
| "error_message (InvalidCountryCode phone) = ''Invalid country code: '' @ phone"
| "error_message (InvalidLocalNumber phone) = ''Invalid local number: '' @ phone"
| "error_message (InvalidFormat phone) = ''Invalid phone number format: '' @ phone"
| "error_message (InvalidNigerianNumber phone) = ''Invalid Nigerian phone number: '' @ phone"

datatype 'a PhoneResult = Success 'a | Failure string

section \<open>Normalization (telco/index.ts)\<close>

text \<open>
  The \<open>switch (firstChar)\<close> of \<open>normalizePhone\<close>, which computes \<open>normalized\<close> from
  \<open>cleaned\<close> or throws. On an empty \<open>cleaned\<close> the source reads \<open>cleaned[0]\<close> as
  \<open>undefined\<close> and takes the default branch.
\<close>

definition normalizePhone_switch :: "string \<Rightarrow> string \<Rightarrow> error + string" where
  "normalizePhone_switch phone cleaned =
     (case cleaned of
        [] \<Rightarrow> Inl (InvalidFormat phone)
      | firstChar # _ \<Rightarrow>
          if firstChar = CHR ''+'' then
            (if startsWith cleaned ''+234'' then Inr cleaned
             else Inl (InvalidCountryCode phone))
          else if firstChar = CHR ''2'' then
            (if startsWith cleaned ''234'' then Inr (''+'' @ cleaned)
             else Inl (InvalidCountryCode phone))
          else if firstChar = CHR ''0'' then
            (if length cleaned = 11 then Inr (''+234'' @ drop 1 cleaned)
             else if length cleaned = 10 then Inl (InvalidLocalNumber phone)
             else Inl (InvalidLength phone))
          else
            (if length cleaned = 10 then Inr (''+234'' @ cleaned)
             else Inl (InvalidFormat phone)))"

text \<open>The optional argument \<open>format\<close> is an option; \<open>format ?? 'e164'\<close> is its default.\<close>

definition normalizePhone :: "string \<Rightarrow> PhoneFormat option \<Rightarrow> error + string" where
  "normalizePhone phone format =
     (if length phone = 0 then Inl EmptyOrNonStringInput
      else
        let cleaned = CLEANUP phone in
        if length cleaned < 10 \<or> length cleaned > 14 then Inl (InvalidLength phone)
        else
          case normalizePhone_switch phone cleaned of
            Inl e \<Rightarrow> Inl e
          | Inr normalized \<Rightarrow>
              if \<not> E164_VALIDATION normalized then Inl (InvalidNigerianNumber phone)
              else
                (case (case format of None \<Rightarrow> E164 | Some f \<Rightarrow> f) of
                   Local \<Rightarrow> Inr (''0'' @ drop 4 normalized)
                 | International \<Rightarrow> Inr normalized
                 | E164 \<Rightarrow> Inr normalized))"

definition safeNormalizePhone :: "string \<Rightarrow> PhoneFormat option \<Rightarrow> string PhoneResult" where
  "safeNormalizePhone phone format =
     (case normalizePhone phone format of
        Inr d \<Rightarrow> Success d
      | Inl e \<Rightarrow> Failure (error_message e))"

definition isValidNigerianNumber :: "string \<Rightarrow> bool" where
  "isValidNigerianNumber phone =
     (if length phone = 0 then False
      else case normalizePhone phone None of Inr _ \<Rightarrow> True | Inl _ \<Rightarrow> False)"

definition validatePhoneFormat :: "string \<Rightarrow> PhoneFormat \<Rightarrow> bool" where
  "validatePhoneFormat phone format =
     (case safeNormalizePhone phone (Some format) of
        Failure _ \<Rightarrow> False
      | Success d \<Rightarrow>
          (if format = Local then LOCAL_VALIDATION d
           else if format = International then INTERNATIONAL_VALIDATION d
           else E164_VALIDATION d))"

section \<open>The JavaScript Map\<close>

text \<open>
  A \<open>Map\<close> keeps its entries in insertion order, one entry for each key: it is an
  association list with distinct keys. \<open>set\<close> on a key that is present replaces the
  value in place; on an absent key it appends the entry.
\<close>

type_synonym ('k, 'v) Map = "('k \<times> 'v) list"

definition Map_has :: "'k \<Rightarrow> ('k, 'v) Map \<Rightarrow> bool" where
  "Map_has k m = (k \<in> set (map fst m))"

definition Map_get :: "'k \<Rightarrow> ('k, 'v) Map \<Rightarrow> 'v option" where
  "Map_get k m = map_of m k"

definition Map_delete :: "'k \<Rightarrow> ('k, 'v) Map \<Rightarrow> ('k, 'v) Map" where
  "Map_delete k m = filter (\<lambda>e. fst e \<noteq> k) m"

definition Map_set :: "'k \<Rightarrow> 'v \<Rightarrow> ('k, 'v) Map \<Rightarrow> ('k, 'v) Map" where
  "Map_set k v m =
     (if Map_has k m then map (\<lambda>e. if fst e = k then (k, v) else e) m
      else m @ [(k, v)])"

definition Map_size :: "('k, 'v) Map \<Rightarrow> nat" where
  "Map_size m = length m"

definition Map_keys :: "('k, 'v) Map \<Rightarrow> 'k list" where
  "Map_keys m = map fst m"

text \<open>
  A key type that admits the value \<open>undefined\<close> is an option type, \<open>None\<close> being
  \<open>undefined\<close>. \<open>keys().next().value\<close> is then \<open>undefined\<close> on an empty map and also on a map
  whose first key is \<open>undefined\<close>.
\<close>

definition Map_first_key :: "('k option, 'v) Map \<Rightarrow> 'k option" where
  "Map_first_key m = (case Map_keys m of [] \<Rightarrow> None | k # _ \<Rightarrow> k)"

section \<open>Provider table and prefix index (constants.ts)\<close>

record TelcoPrefix =
  provider :: TelcoProvider
  prefixes :: "string list"
  description :: string

fun TELCO_DATA :: "TelcoProvider \<Rightarrow> TelcoPrefix" where
  "TELCO_DATA MTN = \<lparr>provider = MTN,
     prefixes = [''0703'', ''0704'', ''0706'', ''07025'', ''07026'',
                 ''0803'', ''0806'', ''0810'', ''0813'', ''0814'', ''0816'',
                 ''0903'', ''0906'', ''0913'', ''0916''],
     description = ''MTN Nigeria''\<rparr>"
| "TELCO_DATA GLO = \<lparr>provider = GLO,
     prefixes = [''0705'', ''0805'', ''0807'', ''0811'', ''0815'', ''0905'', ''0915''],
     description = ''Globacom Nigeria''\<rparr>"
| "TELCO_DATA AIRTEL = \<lparr>provider = AIRTEL,
     prefixes = [''0701'', ''0708'', ''0802'', ''0808'', ''0812'', ''0901'', ''0902'',
                 ''0907'', ''0912''],
     description = ''Airtel Nigeria''\<rparr>"
| "TELCO_DATA NINE_MOBILE = \<lparr>provider = NINE_MOBILE,
     prefixes = [''0809'', ''0817'', ''0818'', ''0908'', ''0909''],
     description = ''9mobile Nigeria''\<rparr>"

text \<open>\<open>Object.entries(TELCO_DATA)\<close>, in the order in which the object literal declares its keys.\<close>

definition TELCO_DATA_entries :: "(TelcoProvider \<times> TelcoPrefix) list" where
  "TELCO_DATA_entries =
     map (\<lambda>t. (t, TELCO_DATA t)) [MTN, GLO, AIRTEL, NINE_MOBILE]"

text \<open>The initialisation of \<open>PREFIX_MAP\<close>: the two nested loops over the entries and
  their prefixes, each \<open>PREFIX_MAP.set(prefix, provider)\<close>.\<close>

definition PREFIX_MAP :: "(string, TelcoProvider) Map" where
  "PREFIX_MAP =
     fold (\<lambda>(t, d) m. fold (\<lambda>p m'. Map_set p t m') (prefixes d) m) TELCO_DATA_entries []"

definition getTelcoInfo :: "TelcoProvider \<Rightarrow> TelcoPrefix" where
  "getTelcoInfo t = TELCO_DATA t"

definition getTelcoByPrefix :: "string \<Rightarrow> TelcoProvider option" where
  "getTelcoByPrefix p = Map_get p PREFIX_MAP"

section \<open>Provider detection, splitting and generation (telco/index.ts)\<close>

definition getTelco :: "string \<Rightarrow> TelcoProvider option" where
  "getTelco phone =
     (case normalizePhone phone None of
        Inl _ \<Rightarrow> None
      | Inr normalized \<Rightarrow>
          let localFormat = ''0'' @ drop 4 normalized;
              prefix5 = take 5 localFormat
          in if Map_has prefix5 PREFIX_MAP then Map_get prefix5 PREFIX_MAP
             else
               let prefix4 = take 4 localFormat
               in Map_get prefix4 PREFIX_MAP)"

text \<open>\<open>n.toString()\<close> of a natural number, in decimal.\<close>

fun toString :: "nat \<Rightarrow> string" where
  "toString n =
     (if n < 10 then [''0123456789'' ! n]
      else toString (n div 10) @ [''0123456789'' ! (n mod 10)])"

text \<open>
  \<open>generateRandomPhone\<close> draws from \<open>Math.random()\<close>; each draw
  \<open>Math.floor(Math.random() * n)\<close> is a parameter of the model: \<open>r1\<close> indexes the
  providers, \<open>r2\<close> the prefixes of the chosen provider, and \<open>rd i\<close> is the digit drawn
  for position \<open>i\<close> of the fill.
\<close>

definition generateRandomPhone ::
    "TelcoProvider option \<Rightarrow> nat \<Rightarrow> nat \<Rightarrow> (nat \<Rightarrow> nat) \<Rightarrow> error + string" where
  "generateRandomPhone telco r1 r2 rd =
     (let providers = (case telco of Some t \<Rightarrow> [t] | None \<Rightarrow> [MTN, GLO, AIRTEL, NINE_MOBILE]);
          chosenProvider = providers ! r1;
          prefix = prefixes (getTelcoInfo chosenProvider) ! r2;
          digitsNeeded = 11 - length prefix;
          number = concat (map (\<lambda>i. toString (rd i)) [0..<digitsNeeded])
      in normalizePhone (prefix @ number) None)"

record PhoneParts =
  prefix :: string
  telco :: "TelcoProvider option"
  number :: string

definition splitPhoneParts :: "string \<Rightarrow> error + PhoneParts" where
  "splitPhoneParts phone =
     (case normalizePhone phone None of
        Inl e \<Rightarrow> Inl e
      | Inr normalized \<Rightarrow>
          let localFormat = ''0'' @ drop 4 normalized;
              prefix5 = take 5 localFormat;
              telco5 = Map_get prefix5 PREFIX_MAP
          in case telco5 of
               Some t5 \<Rightarrow>
                 Inr \<lparr>prefix = prefix5, telco = Some t5, number = drop 4 normalized\<rparr>
             | None \<Rightarrow>
                 let prefix4 = take 4 localFormat;
                     telco4 = Map_get prefix4 PREFIX_MAP
                 in Inr \<lparr>prefix = (if telco4 \<noteq> None then prefix4 else ''''),
                         telco = telco4,
                         number = drop 4 normalized\<rparr>)"

section \<open>The LRU cache (telco/cache.ts)\<close>

text \<open>
  The constructor stores any JavaScript number as \<open>maxSize\<close>, unchecked: a finite number
  (integer or not), an infinity or \<open>NaN\<close>. The only use of it is the comparison
  \<open>this.cache.size >= this.maxSize\<close> with the entry count, which is false for \<open>NaN\<close>.
\<close>

datatype JSNumber = Finite real | PosInfinity | NegInfinity | NaN

fun size_ge :: "nat \<Rightarrow> JSNumber \<Rightarrow> bool" where
  "size_ge n (Finite r) = (real n \<ge> r)"
| "size_ge n PosInfinity = False"
| "size_ge n NegInfinity = True"
| "size_ge n NaN = False"

text \<open>
  The keys of \<open>LRUCache<K, V>\<close> are options, so that \<open>K\<close> may hold \<open>undefined\<close>; a key of a
  type without \<open>undefined\<close>, such as a string, is \<open>Some\<close> of it. \<open>get\<close> returns
  \<open>V | undefined\<close>, an option.
\<close>

record ('k, 'v) LRUCache =
  cache :: "('k option, 'v) Map"
  maxSize :: JSNumber

definition LRUCache_new :: "JSNumber \<Rightarrow> ('k, 'v) LRUCache" where
  "LRUCache_new m = \<lparr>cache = [], maxSize = m\<rparr>"

definition LRUCache_get ::
    "'k option \<Rightarrow> ('k, 'v) LRUCache \<Rightarrow> 'v option \<times> ('k, 'v) LRUCache" where
  "LRUCache_get key c =
     (if Map_has key (cache c) then
        (case Map_get key (cache c) of
           Some v \<Rightarrow> (Some v, c\<lparr>cache := Map_set key v (Map_delete key (cache c))\<rparr>)
         | None \<Rightarrow> (None, c))
      else (None, c))"

text \<open>In \<open>set\<close>, the test \<open>firstKey !== undefined\<close> is the case distinction on the first key.\<close>

definition LRUCache_set :: "'k option \<Rightarrow> 'v \<Rightarrow> ('k, 'v) LRUCache \<Rightarrow> ('k, 'v) LRUCache" where
  "LRUCache_set key v c =
     (let m1 =
        (if Map_has key (cache c) then Map_delete key (cache c)
         else if size_ge (Map_size (cache c)) (maxSize c) then
           (case Map_first_key (cache c) of
              Some firstKey \<Rightarrow> Map_delete (Some firstKey) (cache c)
            | None \<Rightarrow> cache c)
         else cache c)
      in c\<lparr>cache := Map_set key v m1\<rparr>)"

definition LRUCache_clear :: "('k, 'v) LRUCache \<Rightarrow> ('k, 'v) LRUCache" where
  "LRUCache_clear c = c\<lparr>cache := []\<rparr>"

definition LRUCache_size :: "('k, 'v) LRUCache \<Rightarrow> nat" where
  "LRUCache_size c = Map_size (cache c)"

definition LRUCache_has :: "'k option \<Rightarrow> ('k, 'v) LRUCache \<Rightarrow> bool" where
  "LRUCache_has key c = Map_has key (cache c)"

definition LRUCache_delete ::
    "'k option \<Rightarrow> ('k, 'v) LRUCache \<Rightarrow> bool \<times> ('k, 'v) LRUCache" where
  "LRUCache_delete key c = (Map_has key (cache c), c\<lparr>cache := Map_delete key (cache c)\<rparr>)"

text \<open>A client's call of one of the five operations, and the cache after a sequence of calls.\<close>

datatype ('k, 'v) cache_op =
  Get "'k option" | Set "'k option" 'v | Has "'k option" | Delete "'k option" | Clear

fun apply_op :: "('k, 'v) cache_op \<Rightarrow> ('k, 'v) LRUCache \<Rightarrow> ('k, 'v) LRUCache" where
  "apply_op (Get k) c = snd (LRUCache_get k c)"
| "apply_op (Set k v) c = LRUCache_set k v c"
| "apply_op (Has k) c = c"
| "apply_op (Delete k) c = snd (LRUCache_delete k c)"
| "apply_op Clear c = LRUCache_clear c"

definition run_ops :: "('k, 'v) cache_op list \<Rightarrow> ('k, 'v) LRUCache \<Rightarrow> ('k, 'v) LRUCache" where
  "run_ops ops c = fold apply_op ops c"

text \<open>
  The recency of a key after a history of calls: the position (from 1) of the last call
  in the history that was a \<open>get\<close> or a \<open>set\<close> of that key, 0 when there is none.
\<close>

fun touches :: "'k option \<Rightarrow> ('k, 'v) cache_op \<Rightarrow> bool" where
  "touches k (Get k') = (k = k')"
| "touches k (Set k' v) = (k = k')"
| "touches k (Has k') = False"
| "touches k (Delete k') = False"
| "touches k Clear = False"

fun last_use :: "'k option \<Rightarrow> ('k, 'v) cache_op list \<Rightarrow> nat" where
  "last_use k [] = 0"
| "last_use k (x # xs) =
     (if last_use k xs > 0 then Suc (last_use k xs)
      else if touches k x then 1 else 0)"

text \<open>
  The key order of the cache agrees with the recency of the history: a key that stands
  earlier in the Map was last used earlier.
\<close>

definition recency_ordered :: "('k, 'v) cache_op list \<Rightarrow> ('k, 'v) LRUCache \<Rightarrow> bool" where
  "recency_ordered xs c =
     sorted_wrt (\<lambda>a b. last_use a xs < last_use b xs) (Map_keys (cache c))"

section \<open>Derived information (telco/index.ts)\<close>

record PhoneInfo =
  original :: string
  normalized :: string
  telco :: "TelcoProvider option"
  isValid :: bool
  format :: PhoneFormat
  prefix :: string
  number :: string

text \<open>The body of the \<open>try\<close> block of \<open>getPhoneInfo\<close>; \<open>Inl\<close> is a throw that reaches the
  \<open>catch\<close>.\<close>

definition getPhoneInfo_try :: "string \<Rightarrow> error + PhoneInfo" where
  "getPhoneInfo_try phone =
     (case normalizePhone phone None of
        Inl e \<Rightarrow> Inl e
      | Inr normalized' \<Rightarrow>
          let telco' = getTelco phone in
          case splitPhoneParts phone of
            Inl e \<Rightarrow> Inl e
          | Inr parts \<Rightarrow>
              let format' =
                (if take 1 phone = ''+'' then International
                 else if take 1 phone = ''0'' then Local
                 else E164)
              in Inr \<lparr>original = phone, normalized = normalized', telco = telco',
                      isValid = True, format = format',
                      prefix = PhoneParts.prefix parts, number = PhoneParts.number parts\<rparr>)"

text \<open>The \<open>try\<close>/\<open>catch\<close> statement of \<open>getPhoneInfo\<close>, which assigns \<open>result\<close>: the \<open>catch\<close>
  has no filter, so every throw of the block ends in the second assignment.\<close>

definition getPhoneInfo_result :: "string \<Rightarrow> PhoneInfo" where
  "getPhoneInfo_result phone =
     (case getPhoneInfo_try phone of
        Inr r \<Rightarrow> r
      | Inl _ \<Rightarrow>
          \<lparr>original = phone, normalized = '''', telco = None, isValid = False,
           format = E164, prefix = '''', number = ''''\<rparr>)"

text \<open>\<open>getPhoneInfo\<close> reads and writes the module-level \<open>phoneInfoCache\<close>; the model takes
  the cache and returns it with the result. Its keys are strings.\<close>

definition getPhoneInfo ::
    "string \<Rightarrow> (string, PhoneInfo) LRUCache \<Rightarrow> PhoneInfo \<times> (string, PhoneInfo) LRUCache" where
  "getPhoneInfo phone phoneInfoCache =
     (case LRUCache_get (Some phone) phoneInfoCache of
        (Some cached, c1) \<Rightarrow> (cached, c1)
      | (None, c1) \<Rightarrow>
          let result = getPhoneInfo_result phone
          in (result, LRUCache_set (Some phone) result c1))"

definition phoneInfoCache_init :: "(string, PhoneInfo) LRUCache" where
  "phoneInfoCache_init = LRUCache_new (Finite 1000)"

text \<open>The calls of the public interface that touch \<open>phoneInfoCache\<close>: \<open>getPhoneInfo\<close> and
  \<open>clearCaches\<close>; and the cache after a sequence of them.\<close>

datatype api_call = GetPhoneInfo string | ClearCaches

fun api_step :: "api_call \<Rightarrow> (string, PhoneInfo) LRUCache \<Rightarrow> (string, PhoneInfo) LRUCache" where
  "api_step (GetPhoneInfo phone) c = snd (getPhoneInfo phone c)"
| "api_step ClearCaches c = LRUCache_clear c"

definition run_api :: "api_call list \<Rightarrow> (string, PhoneInfo) LRUCache \<Rightarrow> (string, PhoneInfo) LRUCache" where
  "run_api calls c = fold api_step calls c"

section \<open>Properties of the cleanup step\<close>

lemma CLEANUP_digits: "list_all isDigit s \<Longrightarrow> CLEANUP s = s"
  by (induction s) (simp_all add: CLEANUP_matches_def)

lemma CLEANUP_append: "CLEANUP (a @ b) = CLEANUP a @ CLEANUP b"
  by (induction a) simp_all

section \<open>Properties of normalizePhone\<close>

lemma isDigit_0: "isDigit CHR ''0''"
  by (simp add: isDigit_def)

lemma normalizePhone_cleaned:
  assumes "phone \<noteq> []" "CLEANUP phone = cl" "10 \<le> length cl" "length cl \<le> 14"
  shows "normalizePhone phone f =
     (case normalizePhone_switch phone cl of
        Inl e \<Rightarrow> Inl e
      | Inr nz \<Rightarrow>
          if \<not> E164_VALIDATION nz then Inl (InvalidNigerianNumber phone)
          else
            (case (case f of None \<Rightarrow> E164 | Some g \<Rightarrow> g) of
               Local \<Rightarrow> Inr (''0'' @ drop 4 nz)
             | International \<Rightarrow> Inr nz
             | E164 \<Rightarrow> Inr nz))"
  using assms unfolding normalizePhone_def Let_def by auto

lemma E164_VALIDATION_plus234:
  "E164_VALIDATION (CHR ''+'' # CHR ''2'' # CHR ''3'' # CHR ''4'' # ds) =
     (length ds = 10 \<and> list_all isDigit ds)"
  by (simp add: E164_VALIDATION_def startsWith_def)

lemma normalizePhone_ok:
  assumes "phone \<noteq> []" "CLEANUP phone = cl" "10 \<le> length cl" "length cl \<le> 14"
    and "normalizePhone_switch phone cl = Inr (''+234'' @ ds)"
    and "length ds = 10" "list_all isDigit ds"
  shows "normalizePhone phone f =
     Inr (case f of Some Local \<Rightarrow> CHR ''0'' # ds | _ \<Rightarrow> ''+234'' @ ds)"
proof -
  have "normalizePhone phone f =
     (case normalizePhone_switch phone cl of
        Inl e \<Rightarrow> Inl e
      | Inr nz \<Rightarrow>
          if \<not> E164_VALIDATION nz then Inl (InvalidNigerianNumber phone)
          else
            (case (case f of None \<Rightarrow> E164 | Some g \<Rightarrow> g) of
               Local \<Rightarrow> Inr (''0'' @ drop 4 nz)
             | International \<Rightarrow> Inr nz
             | E164 \<Rightarrow> Inr nz))"
    by (rule normalizePhone_cleaned[OF assms(1-4)])
  then show ?thesis using assms(5-7)
    by (simp add: E164_VALIDATION_plus234 split: PhoneFormat.splits option.splits)
qed

lemma normalizePhone_local_digits:
  assumes "length ds = 10" "list_all isDigit ds"
  shows "normalizePhone (CHR ''0'' # ds) f =
     Inr (case f of Some Local \<Rightarrow> CHR ''0'' # ds | _ \<Rightarrow> ''+234'' @ ds)"
proof (rule normalizePhone_ok[OF _ _ _ _ _ assms])
  show "CLEANUP (CHR ''0'' # ds) = CHR ''0'' # ds"
    using CLEANUP_digits[of "CHR ''0'' # ds"] assms isDigit_0 by simp
  show "normalizePhone_switch (CHR ''0'' # ds) (CHR ''0'' # ds) = Inr (''+234'' @ ds)"
    using assms by (simp add: normalizePhone_switch_def)
qed (use assms in simp_all)

lemma normalizePhone_e164_digits:
  assumes "length ds = 10" "list_all isDigit ds"
  shows "normalizePhone (''+234'' @ ds) f =
     Inr (case f of Some Local \<Rightarrow> CHR ''0'' # ds | _ \<Rightarrow> ''+234'' @ ds)"
proof (rule normalizePhone_ok[OF _ _ _ _ _ assms])
  show "CLEANUP (''+234'' @ ds) = ''+234'' @ ds"
    using CLEANUP_digits[of ds] assms by (simp add: CLEANUP_matches_def isDigit_def)
  show "normalizePhone_switch (''+234'' @ ds) (''+234'' @ ds) = Inr (''+234'' @ ds)"
    by (simp add: normalizePhone_switch_def startsWith_def)
qed (use assms in simp_all)

lemma normalizePhone_cases:
  "normalizePhone phone f =
     (case normalizePhone phone None of
        Inl e \<Rightarrow> Inl e
      | Inr nz \<Rightarrow>
          Inr (if f = Some Local then ''0'' @ drop 4 nz else nz))"
  by (cases f; cases "the f")
     (simp_all add: normalizePhone_def Let_def split: sum.splits)

lemma normalizePhone_None_E164:
  "normalizePhone phone None = Inr n \<Longrightarrow> E164_VALIDATION n"
  by (simp add: normalizePhone_def Let_def split: sum.splits if_splits)

lemma LOCAL_of_E164: "E164_VALIDATION n \<Longrightarrow> LOCAL_VALIDATION (''0'' @ drop 4 n)"
  by (simp add: E164_VALIDATION_def LOCAL_VALIDATION_def startsWith_def)

lemma normalizePhone_empty: "normalizePhone [] f = Inl EmptyOrNonStringInput"
  by (simp add: normalizePhone_def)

text \<open>
  C1. For every string \<open>x\<close> that is \<open>0\<close> followed by exactly ten digits,
  \<open>normalizePhone(x)\<close> returns \<open>+234\<close> followed by the same ten digits, and
  \<open>normalizePhone(normalizePhone(x), 'local')\<close> returns \<open>x\<close>.
\<close>

theorem normalizePhone_local_roundtrip:
  assumes "length ds = 10" "list_all isDigit ds"
  shows "normalizePhone (CHR ''0'' # ds) None = Inr (''+234'' @ ds) \<and>
     (case normalizePhone (CHR ''0'' # ds) None of
        Inl e \<Rightarrow> Inl e
      | Inr y \<Rightarrow> normalizePhone y (Some Local)) = Inr (CHR ''0'' # ds)"
  using normalizePhone_local_digits[OF assms, of None]
    normalizePhone_e164_digits[OF assms, of "Some Local"]
  by simp

theorem normalizePhone_local_roundtrip_witness:
  "length ''8031234567'' = 10 \<and> list_all isDigit ''8031234567'' \<and>
   normalizePhone ''08031234567'' None = Inr ''+2348031234567'' \<and>
   (case normalizePhone ''08031234567'' None of
      Inl e \<Rightarrow> Inl e
    | Inr y \<Rightarrow> normalizePhone y (Some Local)) = Inr ''08031234567''"
proof -
  have h1: "length ''8031234567'' = 10" by simp
  have h2: "list_all isDigit ''8031234567''" by (simp add: isDigit_def)
  show ?thesis
    using normalizePhone_local_roundtrip[OF h1 h2] h1 h2 by (simp cong: conj_cong)
qed

text \<open>
  C2 (as the code has it). The cleanup step removes every character that is neither a
  digit nor a \<open>+\<close>, and keeps every digit and every \<open>+\<close>, wherever the \<open>+\<close> stands, in
  their order: the pattern \<open>/[^\d+]/g\<close> has no notion of a leading position.
\<close>

theorem CLEANUP_keeps_digits_and_every_plus:
  "CLEANUP phone = filter (\<lambda>c. isDigit c \<or> c = CHR ''+'') phone \<and>
   CLEANUP (a @ ''+'' @ b) = CLEANUP a @ ''+'' @ CLEANUP b"
proof
  show "CLEANUP phone = filter (\<lambda>c. isDigit c \<or> c = CHR ''+'') phone"
    by (induction phone) (simp_all add: CLEANUP_matches_def)
next
  have "CLEANUP ''+'' = ''+''" by (simp add: CLEANUP_matches_def)
  then show "CLEANUP (a @ ''+'' @ b) = CLEANUP a @ ''+'' @ CLEANUP b"
    by (simp only: CLEANUP_append)
qed

text \<open>
  The claim as stated fails: a \<open>+\<close> after the first character is not removed, and
  \<open>0803 123 4567+\<close> does not clean to what \<open>08031234567\<close> cleans to.
\<close>

theorem CLEANUP_trailing_plus_counterexample:
  "CLEANUP ''0803 123 4567+'' = ''08031234567+'' \<and>
   CLEANUP ''0803 123 4567+'' \<noteq> CLEANUP ''08031234567''"
  by (simp add: CLEANUP_matches_def isDigit_def)

text \<open>
  C7 (as the code has it). For every input whose cleaned string starts with \<open>0\<close> and has
  a length in [10, 14]: if the cleaned length is 11 and the ten characters after the
  leading \<open>0\<close> are all digits, the canonical form is \<open>+234\<close> followed by them; if the
  cleaned length is 11 and one of them is not a digit (a \<open>+\<close> that the cleanup kept),
  \<open>normalizePhone\<close> fails with InvalidNigerianNumber; if the cleaned length is 10 it fails
  with InvalidLocalNumber; for any other cleaned length it fails with InvalidLength.
\<close>

theorem normalizePhone_leading_zero:
  assumes "CLEANUP phone = CHR ''0'' # rest"
    and "10 \<le> length (CLEANUP phone)" "length (CLEANUP phone) \<le> 14"
  shows "normalizePhone phone None =
     (if length (CLEANUP phone) = 11 then
        (if list_all isDigit rest then Inr (''+234'' @ rest)
         else Inl (InvalidNigerianNumber phone))
      else if length (CLEANUP phone) = 10 then Inl (InvalidLocalNumber phone)
      else Inl (InvalidLength phone))"
proof -
  have ne: "phone \<noteq> []" using assms(1) by auto
  show ?thesis
    unfolding normalizePhone_cleaned[OF ne refl assms(2,3)]
    using assms by (simp add: normalizePhone_switch_def E164_VALIDATION_plus234)
qed

theorem normalizePhone_leading_zero_witness:
  "CLEANUP ''0803 123 4567'' = CHR ''0'' # ''8031234567'' \<and>
   10 \<le> length (CLEANUP ''0803 123 4567'') \<and> length (CLEANUP ''0803 123 4567'') \<le> 14 \<and>
   normalizePhone ''0803 123 4567'' None = Inr ''+2348031234567''"
proof -
  have c: "CLEANUP ''0803 123 4567'' = CHR ''0'' # ''8031234567''"
    by (simp add: CLEANUP_matches_def isDigit_def)
  have l1: "10 \<le> length (CLEANUP ''0803 123 4567'')" unfolding c by simp
  have l2: "length (CLEANUP ''0803 123 4567'') \<le> 14" unfolding c by simp
  have d: "list_all isDigit ''8031234567''" by (simp add: isDigit_def)
  have l3: "length (CLEANUP ''0803 123 4567'') = 11" unfolding c by simp
  have r: "normalizePhone ''0803 123 4567'' None = Inr ''+2348031234567''"
    unfolding normalizePhone_leading_zero[OF c l1 l2] using d l3 by simp
  show ?thesis
    using c l1 l2 r by (simp only: simp_thms)
qed

text \<open>
  The claim as stated fails: \<open>0803123456+\<close> cleans to itself, a string of 11 characters
  that starts with \<open>0\<close>, and \<open>normalizePhone\<close> fails on it with InvalidNigerianNumber.
\<close>

theorem normalizePhone_leading_zero_counterexample:
  "CLEANUP ''0803123456+'' = ''0803123456+'' \<and>
   length (CLEANUP ''0803123456+'') = 11 \<and>
   normalizePhone ''0803123456+'' None \<noteq> Inr (''+234'' @ ''803123456+'') \<and>
   normalizePhone ''0803123456+'' None = Inl (InvalidNigerianNumber ''0803123456+'')"
  by (simp add: CLEANUP_matches_def isDigit_def normalizePhone_def normalizePhone_switch_def
      E164_VALIDATION_def startsWith_def)

text \<open>
  C10. For every input \<open>p\<close> and every format \<open>f\<close>, \<open>validatePhoneFormat(p, f)\<close> equals
  \<open>isValidNigerianNumber(p)\<close>; so the format argument never changes the result.
\<close>

theorem validatePhoneFormat_ignores_format:
  "validatePhoneFormat p f1 = isValidNigerianNumber p \<and>
   validatePhoneFormat p f2 = isValidNigerianNumber p \<and>
   validatePhoneFormat p f1 = validatePhoneFormat p f2"
proof -
  have main: "validatePhoneFormat p f = isValidNigerianNumber p" for f
  proof (cases "normalizePhone p None")
    case (Inl e)
    have "normalizePhone p (Some f) = Inl e"
      using normalizePhone_cases[of p "Some f"] Inl by simp
    with Inl show ?thesis
      by (simp add: validatePhoneFormat_def isValidNigerianNumber_def safeNormalizePhone_def)
  next
    case (Inr n)
    then have ne: "p \<noteq> []" using normalizePhone_empty[of None] by auto
    have e: "E164_VALIDATION n" using Inr by (rule normalizePhone_None_E164)
    have nf: "normalizePhone p (Some f) = Inr (if f = Local then ''0'' @ drop 4 n else n)"
      using normalizePhone_cases[of p "Some f"] Inr by simp
    have "validatePhoneFormat p f"
      using e LOCAL_of_E164[OF e] nf
      by (cases f) (simp_all add: validatePhoneFormat_def safeNormalizePhone_def
          INTERNATIONAL_VALIDATION_def E164_VALIDATION_def)
    moreover have "isValidNigerianNumber p"
      using Inr ne by (simp add: isValidNigerianNumber_def)
    ultimately show ?thesis by simp
  qed
  show ?thesis by (simp add: main)
qed

section \<open>Properties of the prefix index and provider detection\<close>

lemma PREFIX_MAP_eq: "PREFIX_MAP =
  [(''0703'', MTN), (''0704'', MTN), (''0706'', MTN), (''07025'', MTN), (''07026'', MTN),
   (''0803'', MTN), (''0806'', MTN), (''0810'', MTN), (''0813'', MTN), (''0814'', MTN), (''0816'', MTN),
   (''0903'', MTN), (''0906'', MTN), (''0913'', MTN), (''0916'', MTN),
   (''0705'', GLO), (''0805'', GLO), (''0807'', GLO), (''0811'', GLO), (''0815'', GLO), (''0905'', GLO), (''0915'', GLO),
   (''0701'', AIRTEL), (''0708'', AIRTEL), (''0802'', AIRTEL), (''0808'', AIRTEL), (''0812'', AIRTEL), (''0901'', AIRTEL), (''0902'', AIRTEL), (''0907'', AIRTEL), (''0912'', AIRTEL),
   (''0809'', NINE_MOBILE), (''0817'', NINE_MOBILE), (''0818'', NINE_MOBILE), (''0908'', NINE_MOBILE), (''0909'', NINE_MOBILE)]"
  by (simp add: PREFIX_MAP_def TELCO_DATA_entries_def Map_set_def Map_has_def)

lemma E164_VALIDATION_shape:
  assumes "E164_VALIDATION n"
  shows "n = ''+234'' @ drop 4 n \<and> length (drop 4 n) = 10 \<and> list_all isDigit (drop 4 n)"
proof -
  have "take 4 n = ''+234''" using assms by (simp add: E164_VALIDATION_def startsWith_def eval_nat_numeral)
  then have "n = ''+234'' @ drop 4 n" using append_take_drop_id[of 4 n] by simp
  then show ?thesis using assms by (simp add: E164_VALIDATION_def)
qed

lemma normalizePhone_Local:
  "normalizePhone phone (Some Local) = Inr l \<longleftrightarrow>
     (\<exists>n. normalizePhone phone None = Inr n \<and> l = ''0'' @ drop 4 n)"
  using normalizePhone_cases[of phone "Some Local"]
  by (auto split: sum.splits)

lemma Map_has_get: "Map_has k m \<longleftrightarrow> Map_get k m \<noteq> None"
  by (simp add: Map_has_def Map_get_def map_of_eq_None_iff)

lemma declared_prefixes_all:
  "list_all (\<lambda>p. Map_get p PREFIX_MAP = Some t) (prefixes (TELCO_DATA t))"
  by (cases t) (simp_all add: PREFIX_MAP_eq Map_get_def)

lemma declared_prefix_lookup:
  "p \<in> set (prefixes (TELCO_DATA t)) \<Longrightarrow> Map_get p PREFIX_MAP = Some t"
  using declared_prefixes_all[of t] by (simp only: list_all_iff)

lemma normalizePhone_07025123456:
  "normalizePhone ''07025123456'' f =
     Inr (case f of Some Local \<Rightarrow> ''07025123456'' | _ \<Rightarrow> ''+2347025123456'')"
  using normalizePhone_local_digits[of "''7025123456''" f]
  by (simp add: isDigit_def split: option.splits PhoneFormat.splits)

lemma normalizePhone_08031234567:
  "normalizePhone ''08031234567'' f =
     Inr (case f of Some Local \<Rightarrow> ''08031234567'' | _ \<Rightarrow> ''+2348031234567'')"
  using normalizePhone_local_digits[of "''8031234567''" f]
  by (simp add: isDigit_def split: option.splits PhoneFormat.splits)

text \<open>
  C4. When the local form of a phone number begins with a declared 5-digit prefix,
  \<open>getTelco\<close> returns the provider that declares it: the 5-character prefix is probed
  first, and the 4-character prefix is probed only when the 5-character one has no entry.
\<close>

theorem getTelco_longest_prefix_first:
  assumes "normalizePhone phone (Some Local) = Inr l"
  shows "(p \<in> set (prefixes (TELCO_DATA t)) \<and> length p = 5 \<and> take 5 l = p
            \<longrightarrow> getTelco phone = Some t) \<and>
         (\<not> Map_has (take 5 l) PREFIX_MAP
            \<longrightarrow> getTelco phone = Map_get (take 4 l) PREFIX_MAP)"
proof -
  obtain n where n: "normalizePhone phone None = Inr n" and l: "l = ''0'' @ drop 4 n"
    using assms normalizePhone_Local by blast
  have g: "getTelco phone =
      (if Map_has (take 5 l) PREFIX_MAP then Map_get (take 5 l) PREFIX_MAP
       else Map_get (take 4 l) PREFIX_MAP)"
    by (simp add: getTelco_def n l Let_def)
  show ?thesis
  proof (intro conjI impI)
    assume "p \<in> set (prefixes (TELCO_DATA t)) \<and> length p = 5 \<and> take 5 l = p"
    then have "Map_get (take 5 l) PREFIX_MAP = Some t"
      using declared_prefix_lookup by blast
    then show "getTelco phone = Some t" by (simp add: g Map_has_get)
  next
    assume "\<not> Map_has (take 5 l) PREFIX_MAP"
    then show "getTelco phone = Map_get (take 4 l) PREFIX_MAP" by (simp add: g)
  qed
qed

theorem getTelco_longest_prefix_first_witness:
  "normalizePhone ''07025123456'' (Some Local) = Inr ''07025123456'' \<and>
   ''07025'' \<in> set (prefixes (TELCO_DATA MTN)) \<and> length ''07025'' = 5 \<and>
   take 5 ''07025123456'' = ''07025'' \<and> getTelco ''07025123456'' = Some MTN \<and>
   normalizePhone ''08031234567'' (Some Local) = Inr ''08031234567'' \<and>
   \<not> Map_has (take 5 ''08031234567'') PREFIX_MAP \<and>
   getTelco ''08031234567'' = Map_get (take 4 ''08031234567'') PREFIX_MAP \<and>
   getTelco ''08031234567'' = Some MTN"
proof -
  have a: "normalizePhone ''07025123456'' (Some Local) = Inr ''07025123456''"
    by (simp add: normalizePhone_07025123456)
  have b: "normalizePhone ''08031234567'' (Some Local) = Inr ''08031234567''"
    by (simp add: normalizePhone_08031234567)
  have c: "\<not> Map_has (take 5 ''08031234567'') PREFIX_MAP"
    by (simp add: PREFIX_MAP_eq Map_has_def)
  have d: "Map_get (take 4 ''08031234567'') PREFIX_MAP = Some MTN"
    by (simp add: PREFIX_MAP_eq Map_get_def)
  have e: "''07025'' \<in> set (prefixes (TELCO_DATA MTN))" by simp
  show ?thesis
    using getTelco_longest_prefix_first[OF a, of "''07025''" MTN]
      getTelco_longest_prefix_first[OF b, of "''07025''" MTN] a b c d e
    by simp
qed

lemma splitPhoneParts_number:
  assumes "normalizePhone phone None = Inr n"
  shows "\<exists>parts. splitPhoneParts phone = Inr parts \<and> PhoneParts.number parts = drop 4 n"
  using assms by (simp add: splitPhoneParts_def Let_def split: option.splits)

text \<open>
  C8. For every input that normalizes, the \<open>number\<close> field of \<open>splitPhoneParts\<close> is the
  canonical form without its 4-character head \<open>+234\<close>, the ten subscriber digits, whether
  a 4-digit or a 5-digit prefix matched (or none); and \<open>splitPhoneParts('07025123456')\<close> is
  prefix \<open>07025\<close>, telco MTN, number \<open>7025123456\<close>.
\<close>

theorem splitPhoneParts_number_is_subscriber_digits:
  assumes "normalizePhone phone None = Inr n"
  shows "(\<exists>parts. splitPhoneParts phone = Inr parts \<and> PhoneParts.number parts = drop 4 n \<and>
            n = ''+234'' @ PhoneParts.number parts \<and> length (PhoneParts.number parts) = 10 \<and>
            list_all isDigit (PhoneParts.number parts)) \<and>
         splitPhoneParts ''07025123456'' =
            Inr \<lparr>PhoneParts.prefix = ''07025'', PhoneParts.telco = Some MTN,
                 PhoneParts.number = ''7025123456''\<rparr>"
proof (intro conjI)
  from splitPhoneParts_number[OF assms] obtain parts where
    p: "splitPhoneParts phone = Inr parts" "PhoneParts.number parts = drop 4 n" by blast
  have "E164_VALIDATION n" using assms by (rule normalizePhone_None_E164)
  from E164_VALIDATION_shape[OF this] p
  show "\<exists>parts. splitPhoneParts phone = Inr parts \<and> PhoneParts.number parts = drop 4 n \<and>
         n = ''+234'' @ PhoneParts.number parts \<and> length (PhoneParts.number parts) = 10 \<and>
         list_all isDigit (PhoneParts.number parts)"
    by simp
next
  show "splitPhoneParts ''07025123456'' =
      Inr \<lparr>PhoneParts.prefix = ''07025'', PhoneParts.telco = Some MTN,
           PhoneParts.number = ''7025123456''\<rparr>"
    by (simp add: splitPhoneParts_def normalizePhone_07025123456 PREFIX_MAP_eq Map_get_def)
qed

theorem splitPhoneParts_number_is_subscriber_digits_witness:
  "normalizePhone ''08031234567'' None = Inr ''+2348031234567'' \<and>
   (\<exists>parts. splitPhoneParts ''08031234567'' = Inr parts \<and>
      PhoneParts.number parts = drop 4 ''+2348031234567'' \<and>
      PhoneParts.number parts = ''8031234567'')"
proof -
  have a: "normalizePhone ''08031234567'' None = Inr ''+2348031234567''"
    by (simp add: normalizePhone_08031234567)
  show ?thesis
    using splitPhoneParts_number_is_subscriber_digits[OF a] a by auto
qed

lemma toString_digit:
  assumes "n < 10"
  shows "length (toString n) = 1 \<and> list_all isDigit (toString n)"
proof -
  have "''0123456789'' ! n \<in> set ''0123456789''"
    by (rule nth_mem) (use assms in simp)
  then have "isDigit (''0123456789'' ! n)" unfolding isDigit_def .
  moreover have "toString n = [''0123456789'' ! n]"
    using assms by (subst toString.simps) simp
  ultimately show ?thesis by simp
qed

lemma random_digits:
  assumes "\<forall>i. rd i < 10"
  shows "length (concat (map (\<lambda>i. toString (rd i)) [0..<k])) = k \<and>
         list_all isDigit (concat (map (\<lambda>i. toString (rd i)) [0..<k]))"
proof (induction k)
  case 0
  show ?case by simp
next
  case (Suc k)
  have "rd k < 10" using assms by simp
  from toString_digit[OF this] Suc show ?case by simp
qed

lemma declared_prefix_shape:
  "list_all (\<lambda>p. (length p = 4 \<or> length p = 5) \<and> take 1 p = ''0'' \<and> list_all isDigit (drop 1 p))
     (prefixes (TELCO_DATA t))"
  by (cases t) (simp_all add: isDigit_def)

lemma declared_prefix4_no_longer_entry:
  "list_all (\<lambda>p. length p = 4 \<longrightarrow> (\<forall>d. \<not> Map_has (p @ [d]) PREFIX_MAP))
     (prefixes (TELCO_DATA t))"
  by (cases t) (simp_all add: PREFIX_MAP_eq Map_has_def)


lemma generated_number_ok:
  assumes p: "p \<in> set (prefixes (TELCO_DATA t))"
    and len: "length ds = 11 - length p" and dig: "list_all isDigit ds"
  shows "normalizePhone (p @ ds) None = Inr (''+234'' @ drop 1 p @ ds) \<and>
         isValidNigerianNumber (''+234'' @ drop 1 p @ ds) \<and>
         getTelco (''+234'' @ drop 1 p @ ds) = Some t"
proof -
  have shape: "(length p = 4 \<or> length p = 5) \<and> take 1 p = ''0'' \<and> list_all isDigit (drop 1 p)"
    using declared_prefix_shape[of t] p unfolding list_all_iff by blast
  define q where "q = drop 1 p"
  define s where "s = ''+234'' @ q @ ds"
  define l where "l = p @ ds"
  have pq: "p = CHR ''0'' # q"
    using shape append_take_drop_id[of 1 p] unfolding q_def by simp
  have lq: "length (q @ ds) = 10" using shape len pq by auto
  have dq: "list_all isDigit (q @ ds)" using shape dig unfolding q_def by simp
  have n1: "normalizePhone (p @ ds) None = Inr s"
    using normalizePhone_local_digits[OF lq dq, of None] pq unfolding s_def by simp
  have n2: "normalizePhone s None = Inr s"
    using normalizePhone_e164_digits[OF lq dq, of None] unfolding s_def by simp
  have ne: "s \<noteq> []" unfolding s_def by simp
  have v: "isValidNigerianNumber s"
    using ne by (simp add: isValidNigerianNumber_def n2)
  have d4: "CHR ''0'' # drop 4 s = l" unfolding s_def l_def by (simp add: pq)
  have g: "getTelco s =
      (if Map_has (take 5 l) PREFIX_MAP then Map_get (take 5 l) PREFIX_MAP
       else Map_get (take 4 l) PREFIX_MAP)"
    by (simp add: getTelco_def n2 Let_def d4)
  have look: "Map_get p PREFIX_MAP = Some t" using p by (rule declared_prefix_lookup)
  have "getTelco s = Some t"
  proof (cases "length p = 5")
    case True
    then have "take 5 l = p" unfolding l_def by simp
    then show ?thesis using look by (simp add: g Map_has_get)
  next
    case False
    then have l4: "length p = 4" using shape by simp
    then have "length ds = 7" using len by simp
    then obtain d ds' where ds: "ds = d # ds'" by (cases ds) auto
    have t5: "take 5 l = p @ [d]" using l4 ds unfolding l_def by simp
    have t4: "take 4 l = p" using l4 unfolding l_def by simp
    have "\<not> Map_has (p @ [d]) PREFIX_MAP"
      using declared_prefix4_no_longer_entry[of t] p l4 unfolding list_all_iff by blast
    then show ?thesis using look by (simp add: g t5 t4)
  qed
  then show ?thesis using n1 v unfolding s_def q_def by simp
qed

text \<open>
  C9. For every provider and every outcome of the random choices (any declared prefix of
  that provider, any fill of the remaining positions with digits 0-9),
  \<open>generateRandomPhone\<close> returns a string that \<open>isValidNigerianNumber\<close> accepts and for
  which \<open>getTelco\<close> returns the requested provider. With a provider argument the list
  of providers has one element, so the first draw is 0.
\<close>

theorem generateRandomPhone_valid_and_same_provider:
  assumes "r2 < length (prefixes (getTelcoInfo t))" and "\<forall>i. rd i < 10"
  shows "\<exists>s. generateRandomPhone (Some t) 0 r2 rd = Inr s \<and>
              isValidNigerianNumber s \<and> getTelco s = Some t"
proof -
  define p where "p = prefixes (TELCO_DATA t) ! r2"
  define ds where "ds = concat (map (\<lambda>i. toString (rd i)) [0..<11 - length p])"
  have pin: "p \<in> set (prefixes (TELCO_DATA t))"
    unfolding p_def using assms(1) by (simp add: getTelcoInfo_def)
  have d: "length ds = 11 - length p" "list_all isDigit ds"
    unfolding ds_def using random_digits[OF assms(2)] by simp_all
  have "generateRandomPhone (Some t) 0 r2 rd = normalizePhone (p @ ds) None"
    by (simp add: generateRandomPhone_def Let_def getTelcoInfo_def p_def ds_def)
  with generated_number_ok[OF pin d] show ?thesis by simp
qed

theorem generateRandomPhone_valid_and_same_provider_witness:
  "3 < length (prefixes (getTelcoInfo MTN)) \<and> (\<forall>i. (\<lambda>i. i mod 10) i < (10::nat)) \<and>
   (\<exists>s. generateRandomPhone (Some MTN) 0 3 (\<lambda>i. i mod 10) = Inr s \<and>
              isValidNigerianNumber s \<and> getTelco s = Some MTN)"
proof -
  have a: "3 < length (prefixes (getTelcoInfo MTN))" by (simp add: getTelcoInfo_def)
  have b: "\<forall>i. (\<lambda>i. i mod 10) i < (10::nat)" by simp
  show ?thesis using generateRandomPhone_valid_and_same_provider[OF a b] a b by simp
qed


section \<open>Properties of the LRU cache\<close>


lemma Map_has_delete: "\<not> Map_has k (Map_delete k m)"
  by (auto simp: Map_has_def Map_delete_def)

lemma Map_set_absent: "\<not> Map_has k m \<Longrightarrow> Map_set k v m = m @ [(k, v)]"
  by (simp add: Map_set_def)

lemma length_Map_delete: "length (Map_delete k m) \<le> length m"
  by (simp add: Map_delete_def)

lemma length_Map_delete_present:
  assumes "Map_has k m"
  shows "length (Map_delete k m) < length m"
proof -
  from assms obtain e where "e \<in> set m" "fst e = k"
    by (auto simp: Map_has_def)
  then show ?thesis
    unfolding Map_delete_def by (intro length_filter_less[of e]) simp_all
qed

lemma Map_first_key_Cons: "Map_first_key (e # m) = fst e"
  by (simp add: Map_first_key_def Map_keys_def)

lemma Map_first_key_Nil: "Map_first_key [] = None"
  by (simp add: Map_first_key_def Map_keys_def)

lemma Map_has_delete_other: "\<not> Map_has k m \<Longrightarrow> \<not> Map_has k (Map_delete k' m)"
  by (auto simp: Map_has_def Map_delete_def)

lemma cache_LRUCache_get:
  "cache (snd (LRUCache_get k c)) =
     (case Map_get k (cache c) of
        Some v \<Rightarrow> Map_delete k (cache c) @ [(k, v)]
      | None \<Rightarrow> cache c)"
proof (cases "Map_get k (cache c)")
  case None
  then show ?thesis by (simp add: LRUCache_get_def Map_has_get)
next
  case (Some v)
  then show ?thesis
    by (simp add: LRUCache_get_def Map_has_get Map_set_absent[OF Map_has_delete])
qed

lemma fst_LRUCache_get: "fst (LRUCache_get k c) = Map_get k (cache c)"
  by (cases "Map_get k (cache c)") (simp_all add: LRUCache_get_def Map_has_get)

lemma maxSize_LRUCache_get: "maxSize (snd (LRUCache_get k c)) = maxSize c"
  by (cases "Map_get k (cache c)") (simp_all add: LRUCache_get_def Map_has_get)

lemma cache_LRUCache_set:
  "cache (LRUCache_set k v c) =
     (if Map_has k (cache c) then Map_delete k (cache c)
      else if size_ge (length (cache c)) (maxSize c) then
        (case cache c of
           [] \<Rightarrow> []
         | e # m \<Rightarrow> (case fst e of None \<Rightarrow> e # m | Some k0 \<Rightarrow> Map_delete (Some k0) m))
      else cache c) @ [(k, v)]"
proof (cases "Map_has k (cache c)")
  case True
  then show ?thesis
    by (simp add: LRUCache_set_def Map_set_absent[OF Map_has_delete])
next
  case False
  show ?thesis
  proof (cases "cache c")
    case Nil
    then show ?thesis using False
      by (simp add: LRUCache_set_def Map_first_key_Nil Map_set_absent Map_size_def)
  next
    case (Cons e m)
    show ?thesis
    proof (cases "fst e")
      case None
      then show ?thesis using False Cons
        by (simp add: LRUCache_set_def Map_first_key_Cons Map_set_absent Map_size_def Let_def)
    next
      case (Some k0)
      have a: "\<not> Map_has k (Map_delete (Some k0) (cache c))"
        using False by (rule Map_has_delete_other)
      have b: "Map_delete (Some k0) (e # m) = Map_delete (Some k0) m"
        using Some by (simp add: Map_delete_def)
      show ?thesis using False a b Cons Some
        by (simp add: LRUCache_set_def Map_first_key_Cons Map_set_absent Map_size_def Let_def)
    qed
  qed
qed

lemma maxSize_LRUCache_set: "maxSize (LRUCache_set k v c) = maxSize c"
  by (simp add: LRUCache_set_def Let_def)

lemma maxSize_apply_op: "maxSize (apply_op x c) = maxSize c"
  by (cases x)
     (simp_all add: maxSize_LRUCache_get maxSize_LRUCache_set LRUCache_delete_def
        LRUCache_clear_def)

lemma run_ops_snoc: "run_ops (xs @ [x]) c = apply_op x (run_ops xs c)"
  by (simp add: run_ops_def)

lemma maxSize_run_ops: "maxSize (run_ops xs c) = maxSize c"
  by (induction xs rule: rev_induct) (simp_all add: run_ops_snoc maxSize_apply_op run_ops_def)

lemma Map_keys_delete: "Map_keys (Map_delete k m) = filter (\<lambda>a. a \<noteq> k) (Map_keys m)"
  by (induction m) (simp_all add: Map_keys_def Map_delete_def)

lemma Map_keys_append: "Map_keys (m @ [(k, v)]) = Map_keys m @ [k]"
  by (simp add: Map_keys_def)

lemma Map_has_keys: "Map_has k m \<longleftrightarrow> k \<in> set (Map_keys m)"
  by (simp add: Map_has_def Map_keys_def)

text \<open>
  Where the bound on the entry count does hold: the capacity is an integer of at least 1
  and no call sets the key \<open>undefined\<close>.
\<close>

lemma size_apply_op_defined_keys:
  assumes m: "maxSize c = Finite (of_int m)" "1 \<le> m"
    and inv: "None \<notin> set (Map_keys (cache c))" "int (length (cache c)) \<le> m"
    and x: "\<forall>v. x \<noteq> Set None v"
  shows "None \<notin> set (Map_keys (cache (apply_op x c))) \<and>
         int (length (cache (apply_op x c))) \<le> m"
proof (cases x)
  case (Get k)
  show ?thesis
  proof (cases "Map_get k (cache c)")
    case None
    then show ?thesis using inv Get by (simp add: cache_LRUCache_get)
  next
    case (Some v)
    then have h: "Map_has k (cache c)" by (simp add: Map_has_get)
    have "k \<noteq> None"
    proof
      assume "k = None"
      with h inv(1) show False by (simp add: Map_has_keys)
    qed
    then obtain k1 where "k = Some k1" by (cases k) simp_all
    with length_Map_delete_present[OF h] show ?thesis
      using inv Get Some by (simp add: cache_LRUCache_get Map_keys_append Map_keys_delete)
  qed
next
  case (Set k v)
  then have "k \<noteq> None" using x by auto
  then obtain k1 where k: "k = Some k1" by (cases k) simp_all
  show ?thesis
  proof (cases "Map_has k (cache c)")
    case True
    from length_Map_delete_present[OF this] show ?thesis
      using inv Set True k by (simp add: cache_LRUCache_set Map_keys_append Map_keys_delete)
  next
    case False
    show ?thesis
    proof (cases "cache c")
      case Nil
      then show ?thesis using Set False k m
        by (simp add: cache_LRUCache_set Map_keys_def)
    next
      case (Cons e rest)
      then obtain k0 where e: "fst e = Some k0"
        using inv(1) by (cases "fst e") (auto simp: Map_keys_def)
      have "length (Map_delete (Some k0) rest) \<le> length rest" by (rule length_Map_delete)
      moreover have "None \<notin> set (Map_keys rest)"
        using inv(1) Cons by (simp add: Map_keys_def)
      ultimately show ?thesis using inv Set False Cons e k m
        by (simp add: cache_LRUCache_set Map_keys_append Map_keys_delete)
    qed
  qed
next
  case (Has k)
  then show ?thesis using inv by simp
next
  case (Delete k)
  have "length (Map_delete k (cache c)) \<le> length (cache c)" by (rule length_Map_delete)
  then show ?thesis using inv Delete
    by (simp add: LRUCache_delete_def Map_keys_delete)
next
  case Clear
  then show ?thesis using m by (simp add: LRUCache_clear_def Map_keys_def)
qed

lemma size_run_ops_defined_keys:
  assumes "1 \<le> m" and "\<forall>x\<in>set xs. \<forall>v. x \<noteq> Set None v"
  shows "None \<notin> set (Map_keys (cache (run_ops xs (LRUCache_new (Finite (of_int m)))))) \<and>
         int (LRUCache_size (run_ops xs (LRUCache_new (Finite (of_int m))))) \<le> m"
  using assms(2)
proof (induction xs rule: rev_induct)
  case Nil
  show ?case using assms(1)
    by (simp add: run_ops_def LRUCache_new_def LRUCache_size_def Map_size_def Map_keys_def)
next
  case (snoc x xs)
  let ?c = "run_ops xs (LRUCache_new (Finite (of_int m)))"
  have ms: "maxSize ?c = Finite (of_int m)"
    by (simp add: maxSize_run_ops LRUCache_new_def)
  have ih: "None \<notin> set (Map_keys (cache ?c))" "int (length (cache ?c)) \<le> m"
    using snoc by (simp_all add: LRUCache_size_def Map_size_def)
  have x: "\<forall>v. x \<noteq> Set None v" using snoc.prems by simp
  from size_apply_op_defined_keys[OF ms assms(1) ih x]
  show ?case by (simp add: run_ops_snoc LRUCache_size_def Map_size_def)
qed

lemmas cache_eval = run_ops_def LRUCache_new_def LRUCache_set_def LRUCache_get_def
  LRUCache_size_def Map_has_def Map_get_def Map_set_def Map_delete_def Map_size_def
  Map_first_key_def Map_keys_def Let_def

text \<open>
  C5. The entry count is to stay within the maximum size given at construction. The code
  does not keep it there: with maximum size 0, one \<open>set\<close> on the new cache finds it full and
  empty, evicts nothing and inserts, so one entry is held; with maximum size 1.5 two
  \<open>set\<close>s leave two entries; and with maximum size 2 and \<open>undefined\<close> as the oldest key,
  \<open>set\<close> evicts nothing and four \<open>set\<close>s leave four entries.
\<close>

theorem LRUCache_size_exceeds_maxSize:
  "LRUCache_size (run_ops [Set (Some ''a'') ''x''] (LRUCache_new (Finite 0))) = 1 \<and>
   LRUCache_size (run_ops [Set (Some ''a'') ''x'', Set (Some ''b'') ''y'']
      (LRUCache_new (Finite (3 / 2)))) = 2 \<and>
   LRUCache_size (run_ops [Set None ''u'', Set (Some ''a'') ''x'', Set (Some ''b'') ''y'',
      Set (Some ''c'') ''z''] (LRUCache_new (Finite 2))) = 4"
  by (simp add: cache_eval)

lemma Map_get_delete:
  "Map_get k' (Map_delete k m) = (if k' = k then None else Map_get k' m)"
  by (induction m) (auto simp: Map_get_def Map_delete_def)

lemma Map_get_append:
  "Map_get k' (m @ [(k, v)]) =
     (case Map_get k' m of Some w \<Rightarrow> Some w | None \<Rightarrow> if k' = k then Some v else None)"
  by (simp add: Map_get_def map_add_def split: option.splits)

lemma Map_delete_absent: "k \<notin> set (Map_keys m) \<Longrightarrow> Map_delete k m = m"
  by (auto simp: Map_delete_def Map_keys_def filter_id_conv)

lemma keys_LRUCache_set:
  "\<exists>Q. Map_keys (cache (LRUCache_set k v c)) =
         filter Q (filter (\<lambda>a. a \<noteq> k) (Map_keys (cache c))) @ [k]"
proof -
  let ?ks = "Map_keys (cache c)"
  have unchanged: ?thesis if "cache (LRUCache_set k v c) = cache c @ [(k, v)]"
    and "\<not> Map_has k (cache c)"
  proof (intro exI)
    have "filter (\<lambda>a. a \<noteq> k) ?ks = ?ks"
      using that(2) by (auto simp: Map_has_keys filter_id_conv)
    then show "Map_keys (cache (LRUCache_set k v c)) =
        filter (\<lambda>_. True) (filter (\<lambda>a. a \<noteq> k) ?ks) @ [k]"
      using that(1) by (simp add: Map_keys_append)
  qed
  show ?thesis
  proof (cases "Map_has k (cache c)")
    case True
    show ?thesis
    proof (intro exI)
      show "Map_keys (cache (LRUCache_set k v c)) =
          filter (\<lambda>_. True) (filter (\<lambda>a. a \<noteq> k) ?ks) @ [k]"
        using True by (simp add: cache_LRUCache_set Map_keys_append Map_keys_delete)
    qed
  next
    case False
    show ?thesis
    proof (cases "size_ge (length (cache c)) (maxSize c)")
      case nfull: False
      then have "cache (LRUCache_set k v c) = cache c @ [(k, v)]"
        using False by (simp add: cache_LRUCache_set)
      then show ?thesis using False by (rule unchanged)
    next
      case full: True
      show ?thesis
      proof (cases "cache c")
        case Nil
        then have "cache (LRUCache_set k v c) = cache c @ [(k, v)]"
          using False full by (simp add: cache_LRUCache_set)
        then show ?thesis using False by (rule unchanged)
      next
        case (Cons e m)
        show ?thesis
        proof (cases "fst e")
          case None
          then have "cache (LRUCache_set k v c) = cache c @ [(k, v)]"
            using False full Cons by (simp add: cache_LRUCache_set)
          then show ?thesis using False by (rule unchanged)
        next
          case (Some k0)
          have c': "cache (LRUCache_set k v c) = Map_delete (Some k0) m @ [(k, v)]"
            using False full Cons Some by (simp add: cache_LRUCache_set)
          have nk: "filter (\<lambda>a. a \<noteq> k) ?ks = ?ks"
            using False by (auto simp: Map_has_keys filter_id_conv)
          have ks: "?ks = Some k0 # Map_keys m"
            using Cons Some by (simp add: Map_keys_def)
          show ?thesis
          proof (intro exI)
            show "Map_keys (cache (LRUCache_set k v c)) =
                filter (\<lambda>a. a \<noteq> Some k0) (filter (\<lambda>a. a \<noteq> k) ?ks) @ [k]"
              unfolding nk c' unfolding ks by (simp add: Map_keys_append Map_keys_delete)
          qed
        qed
      qed
    qed
  qed
qed

lemma last_use_le: "last_use k xs \<le> length xs"
  by (induction xs) simp_all

lemma last_use_snoc:
  "last_use k (xs @ [x]) = (if touches k x then Suc (length xs) else last_use k xs)"
  by (induction xs) simp_all

lemma recency_untouched:
  assumes "sorted_wrt (\<lambda>a b. last_use a xs < last_use b xs) ks"
    and "\<forall>a\<in>set ks. \<not> touches a x"
  shows "sorted_wrt (\<lambda>a b. last_use a (xs @ [x]) < last_use b (xs @ [x])) ks"
  using assms(1)
  by (rule sorted_wrt_mono_rel[rotated]) (use assms(2) in \<open>simp add: last_use_snoc\<close>)

lemma recency_touched_last:
  assumes "sorted_wrt (\<lambda>a b. last_use a xs < last_use b xs) ks"
    and "\<forall>a\<in>set ks. \<not> touches a x" and "touches k x"
  shows "sorted_wrt (\<lambda>a b. last_use a (xs @ [x]) < last_use b (xs @ [x])) (ks @ [k])"
proof -
  have "last_use a (xs @ [x]) < last_use k (xs @ [x])" if "a \<in> set ks" for a
    using that assms(2,3) last_use_le[of a xs] by (simp add: last_use_snoc)
  then show ?thesis
    using recency_untouched[OF assms(1,2)] by (simp add: sorted_wrt_append)
qed

lemma recency_ordered_step:
  assumes "recency_ordered xs c"
  shows "recency_ordered (xs @ [x]) (apply_op x c)"
proof -
  let ?R = "\<lambda>a b. last_use a xs < last_use b xs"
  let ?ks = "Map_keys (cache c)"
  have s: "sorted_wrt ?R ?ks" using assms by (simp add: recency_ordered_def)
  have moved: "sorted_wrt (\<lambda>a b. last_use a (xs @ [x]) < last_use b (xs @ [x]))
                 (filter Q (filter (\<lambda>a. a \<noteq> k) ?ks) @ [k])"
    if "touches k x" "\<And>a. a \<noteq> k \<Longrightarrow> \<not> touches a x" for k and Q :: "'a option \<Rightarrow> bool"
    by (rule recency_touched_last)
       (use s that in \<open>auto intro: sorted_wrt_filter\<close>)
  show ?thesis
  proof (cases x)
    case (Get k)
    show ?thesis
    proof (cases "Map_get k (cache c)")
      case None
      then have "k \<notin> set ?ks" using Map_has_get[of k "cache c"] by (simp add: Map_has_keys)
      then have "\<forall>a\<in>set ?ks. \<not> touches a x" using Get by auto
      from recency_untouched[OF s this] show ?thesis using Get None
        by (simp add: recency_ordered_def cache_LRUCache_get)
    next
      case (Some v)
      from moved[of k "\<lambda>_. True"] show ?thesis using Get Some
        by (simp add: recency_ordered_def cache_LRUCache_get Map_keys_append Map_keys_delete)
    qed
  next
    case (Set k v)
    obtain Q where "Map_keys (cache (LRUCache_set k v c)) =
         filter Q (filter (\<lambda>a. a \<noteq> k) ?ks) @ [k]"
      using keys_LRUCache_set[of k v c] by (elim exE)
    with moved[of k Q] show ?thesis using Set
      by (simp add: recency_ordered_def)
  next
    case (Has k)
    then have "\<forall>a\<in>set ?ks. \<not> touches a x" by simp
    from recency_untouched[OF s this] show ?thesis using Has
      by (simp add: recency_ordered_def)
  next
    case (Delete k)
    then have "\<forall>a\<in>set (filter (\<lambda>a. a \<noteq> k) ?ks). \<not> touches a x" by simp
    from recency_untouched[OF sorted_wrt_filter[OF s] this] show ?thesis using Delete
      by (simp add: recency_ordered_def LRUCache_delete_def Map_keys_delete)
  next
    case Clear
    then show ?thesis by (simp add: recency_ordered_def LRUCache_clear_def Map_keys_def)
  qed
qed

lemma recency_ordered_run:
  "recency_ordered xs (run_ops xs (LRUCache_new m))"
proof (induction xs rule: rev_induct)
  case Nil
  show ?case by (simp add: recency_ordered_def run_ops_def LRUCache_new_def Map_keys_def)
next
  case (snoc x xs)
  from recency_ordered_step[OF this] show ?case by (simp add: run_ops_snoc)
qed

lemma recency_head_least:
  assumes "recency_ordered xs c" "cache c = e # rest"
  shows "\<forall>k'\<in>set (Map_keys rest). last_use (fst e) xs < last_use k' xs"
  using assms by (simp add: recency_ordered_def Map_keys_def)

text \<open>
  What holds of the cache on every key type and every capacity: the key order is the
  recency order; \<open>get\<close> on a present key returns its value and moves the key to the end;
  \<open>set\<close> stores the value at the end; and a \<open>set\<close> of a new key into a full cache whose
  oldest key is not \<open>undefined\<close> drops exactly the oldest entry, the least recently used.
\<close>

lemma LRUCache_recency_defined_oldest_key:
  assumes "c = run_ops xs (LRUCache_new m)"
  shows "(\<forall>v. Map_get k (cache c) = Some v \<longrightarrow>
            fst (LRUCache_get k c) = Some v \<and>
            Map_keys (cache (snd (LRUCache_get k c))) =
              filter (\<lambda>a. a \<noteq> k) (Map_keys (cache c)) @ [k] \<and>
            (\<forall>k'. Map_get k' (cache (snd (LRUCache_get k c))) = Map_get k' (cache c))) \<and>
         (Map_get k (cache (LRUCache_set k w c)) = Some w \<and>
            last (Map_keys (cache (LRUCache_set k w c))) = k) \<and>
         (\<forall>k0 v0 rest. \<not> Map_has k (cache c) \<and> size_ge (LRUCache_size c) (maxSize c) \<and>
              cache c = (Some k0, v0) # rest \<longrightarrow>
            cache (LRUCache_set k w c) = rest @ [(k, w)] \<and>
            (\<forall>k'\<in>set (Map_keys rest). last_use (Some k0) xs < last_use k' xs)) \<and>
         recency_ordered xs c \<and>
         recency_ordered (xs @ [Get k]) (snd (LRUCache_get k c)) \<and>
         recency_ordered (xs @ [Set k w]) (LRUCache_set k w c)"
proof -
  have ro: "recency_ordered xs c"
    unfolding assms by (rule recency_ordered_run)
  have g: "fst (LRUCache_get k c) = Some v \<and>
            Map_keys (cache (snd (LRUCache_get k c))) =
              filter (\<lambda>a. a \<noteq> k) (Map_keys (cache c)) @ [k] \<and>
            (\<forall>k'. Map_get k' (cache (snd (LRUCache_get k c))) = Map_get k' (cache c))"
    if "Map_get k (cache c) = Some v" for v
    using that
    by (simp add: fst_LRUCache_get cache_LRUCache_get Map_keys_append Map_keys_delete
        Map_get_append Map_get_delete split: option.splits)
  obtain Q where q: "Map_keys (cache (LRUCache_set k w c)) =
         filter Q (filter (\<lambda>a. a \<noteq> k) (Map_keys (cache c))) @ [k]"
    using keys_LRUCache_set[of k w c] by (elim exE)
  have "\<exists>m'. cache (LRUCache_set k w c) = m' @ [(k, w)]"
    by (simp add: cache_LRUCache_set)
  then obtain m' where m': "cache (LRUCache_set k w c) = m' @ [(k, w)]" by blast
  have "Map_keys m' = filter Q (filter (\<lambda>a. a \<noteq> k) (Map_keys (cache c)))"
    using q m' by (simp add: Map_keys_append)
  then have "\<not> Map_has k m'" by (simp add: Map_has_keys)
  then have s: "Map_get k (cache (LRUCache_set k w c)) = Some w \<and>
            last (Map_keys (cache (LRUCache_set k w c))) = k"
    using m' by (auto simp: Map_get_append Map_keys_append Map_has_get)
  have ev: "cache (LRUCache_set k w c) = rest @ [(k, w)] \<and>
            (\<forall>k'\<in>set (Map_keys rest). last_use (Some k0) xs < last_use k' xs)"
    if "\<not> Map_has k (cache c) \<and> size_ge (LRUCache_size c) (maxSize c) \<and>
        cache c = (Some k0, v0) # rest"
    for k0 v0 rest
  proof -
    have least: "\<forall>k'\<in>set (Map_keys rest). last_use (Some k0) xs < last_use k' xs"
      using recency_head_least[OF ro, of "(Some k0, v0)" rest] that by simp
    then have "Some k0 \<notin> set (Map_keys rest)" by auto
    then have "Map_delete (Some k0) rest = rest" by (rule Map_delete_absent)
    moreover have "\<not> Map_has k (cache c)" "size_ge (length (cache c)) (maxSize c)"
      "cache c = (Some k0, v0) # rest"
      using that by (auto simp: LRUCache_size_def Map_size_def)
    ultimately show ?thesis using least
      by (simp add: cache_LRUCache_set)
  qed
  have r1: "recency_ordered (xs @ [Get k]) (snd (LRUCache_get k c))"
    using recency_ordered_step[OF ro, of "Get k"] by simp
  have r2: "recency_ordered (xs @ [Set k w]) (LRUCache_set k w c)"
    using recency_ordered_step[OF ro, of "Set k w"] by simp
  show ?thesis using g s ev ro r1 r2 by blast
qed

text \<open>
  C6. A \<open>set\<close> of a new key into a full cache is to evict the least recently used entry.
  The code does not when the key of that entry is \<open>undefined\<close>: after \<open>set(undefined, 'u')\<close>
  and \<open>set('a', 'x')\<close> the cache of maximum size 2 is full and the entry of \<open>undefined\<close> is
  its least recently used one; \<open>set('b', 'y')\<close> then reads the first key as \<open>undefined\<close>,
  skips the delete and leaves all three entries.
\<close>

theorem LRUCache_set_keeps_undefined_oldest_key:
  "cache (run_ops [Set None ''u'', Set (Some ''a'') ''x''] (LRUCache_new (Finite 2))) =
      [(None, ''u''), (Some ''a'', ''x'')] \<and>
   size_ge (LRUCache_size (run_ops [Set None ''u'', Set (Some ''a'') ''x'']
      (LRUCache_new (Finite 2)))) (Finite 2) \<and>
   last_use None [Set None ''u'', Set (Some ''a'') ''x''] <
     last_use (Some ''a'') [Set None ''u'', Set (Some ''a'') ''x''] \<and>
   cache (LRUCache_set (Some ''b'') ''y''
      (run_ops [Set None ''u'', Set (Some ''a'') ''x''] (LRUCache_new (Finite 2)))) =
      [(None, ''u''), (Some ''a'', ''x''), (Some ''b'', ''y'')]"
  by (simp add: cache_eval)

section \<open>Properties of getPhoneInfo\<close>

lemma set_Map_delete: "set (Map_delete k m) \<subseteq> set m"
  by (auto simp: Map_delete_def)

lemma set_cache_LRUCache_set:
  "set (cache (LRUCache_set k v c)) \<subseteq> insert (k, v) (set (cache c))"
proof -
  have "set (case cache c of
               [] \<Rightarrow> []
             | e # m \<Rightarrow> (case fst e of None \<Rightarrow> e # m | Some k0 \<Rightarrow> Map_delete (Some k0) m))
          \<subseteq> set (cache c)"
    using set_Map_delete by (cases "cache c") (fastforce split: option.splits)+
  then show ?thesis
    using set_Map_delete[of k "cache c"] by (auto simp: cache_LRUCache_set)
qed

lemma getPhoneInfo_cached:
  assumes "\<forall>p v. (Some p, v) \<in> set (cache c) \<longrightarrow> v = getPhoneInfo_result p"
  shows "fst (getPhoneInfo phone c) = getPhoneInfo_result phone \<and>
         (\<forall>p v. (Some p, v) \<in> set (cache (snd (getPhoneInfo phone c))) \<longrightarrow>
            v = getPhoneInfo_result p)"
proof (cases "Map_get (Some phone) (cache c)")
  case None
  have g: "LRUCache_get (Some phone) c = (None, c)"
    using None by (simp add: LRUCache_get_def Map_has_get)
  have "getPhoneInfo phone c =
      (getPhoneInfo_result phone, LRUCache_set (Some phone) (getPhoneInfo_result phone) c)"
    by (simp add: getPhoneInfo_def g Let_def)
  then show ?thesis
    using assms set_cache_LRUCache_set[of "Some phone" "getPhoneInfo_result phone" c] by auto
next
  case (Some v)
  then have "(Some phone, v) \<in> set (cache c)" by (simp add: Map_get_def map_of_SomeD)
  then have v: "v = getPhoneInfo_result phone" using assms by auto
  have g: "LRUCache_get (Some phone) c = (Some v, snd (LRUCache_get (Some phone) c))"
    using fst_LRUCache_get[of "Some phone" c] Some by (metis prod.collapse)
  have c': "cache (snd (LRUCache_get (Some phone) c)) =
      Map_delete (Some phone) (cache c) @ [(Some phone, v)]"
    using Some by (simp add: cache_LRUCache_get)
  have "getPhoneInfo phone c = (v, snd (LRUCache_get (Some phone) c))"
    by (subst getPhoneInfo_def, subst g) simp
  then show ?thesis
    using assms v c' set_Map_delete[of "Some phone" "cache c"] by auto
qed

lemma run_api_snoc: "run_api (xs @ [x]) c = api_step x (run_api xs c)"
  by (simp add: run_api_def)

lemma run_api_cached:
  "\<forall>p v. (Some p, v) \<in> set (cache (run_api calls phoneInfoCache_init)) \<longrightarrow>
     v = getPhoneInfo_result p"
proof (induction calls rule: rev_induct)
  case Nil
  show ?case by (simp add: run_api_def phoneInfoCache_init_def LRUCache_new_def)
next
  case (snoc x xs)
  show ?case
  proof (cases x)
    case (GetPhoneInfo phone)
    then show ?thesis using getPhoneInfo_cached[OF snoc, of phone] by (simp add: run_api_snoc)
  next
    case ClearCaches
    then show ?thesis by (simp add: run_api_snoc LRUCache_clear_def)
  qed
qed

lemma getPhoneInfo_result_failure:
  "normalizePhone phone None = Inl e \<Longrightarrow>
     getPhoneInfo_result phone =
       \<lparr>original = phone, normalized = '''', telco = None, isValid = False,
        format = E164, prefix = '''', number = ''''\<rparr>"
  by (simp add: getPhoneInfo_result_def getPhoneInfo_try_def)

text \<open>
  C3. \<open>getPhoneInfo\<close> never throws: the catch-all absorbs every throw of its \<open>try\<close> block and
  the model returns a record on every input. When normalization of the input fails, after
  any sequence of calls of \<open>getPhoneInfo\<close> and \<open>clearCaches\<close>, it returns the record with
  \<open>isValid = false\<close>, \<open>normalized = ''\<close>, \<open>telco = null\<close>, \<open>prefix = ''\<close>, \<open>number = ''\<close> and
  \<open>format = 'e164'\<close> (and the input as \<open>original\<close>), whether it is computed or read
  from the cache.
\<close>

theorem getPhoneInfo_absorbs_failure:
  assumes "normalizePhone phone None = Inl e"
  shows "fst (getPhoneInfo phone (run_api calls phoneInfoCache_init)) =
       \<lparr>original = phone, normalized = '''', telco = None, isValid = False,
        format = E164, prefix = '''', number = ''''\<rparr>"
  using getPhoneInfo_cached[OF run_api_cached, of phone calls] getPhoneInfo_result_failure[OF assms]
  by simp

theorem getPhoneInfo_absorbs_failure_witness:
  "normalizePhone ''123'' None = Inl (InvalidLength ''123'') \<and>
   fst (getPhoneInfo ''123'' (run_api [GetPhoneInfo ''123'', ClearCaches, GetPhoneInfo ''08031234567''] phoneInfoCache_init)) =
       \<lparr>original = ''123'', normalized = '''', telco = None, isValid = False,
        format = E164, prefix = '''', number = ''''\<rparr>"
proof -
  have a: "normalizePhone ''123'' None = Inl (InvalidLength ''123'')"
    by (simp add: normalizePhone_def CLEANUP_matches_def isDigit_def)
  show ?thesis using getPhoneInfo_absorbs_failure[OF a] a by simp
qed

end
